theory Spec2Isabelle
  imports Complex_Main "HOL-Library.Word" "HOL-Library.Log_Nat"
begin

section \<open>The cache facade of redis.go\<close>

text \<open>
  The package wraps a redigo connection pool: \<open>Set\<close> marshals an object and writes it
  with SETEX, \<open>Get\<close> reads a key with GET, counts hits and misses and unmarshals the
  bytes, \<open>Stats\<close> reads the two counters.

  The model is sequential: one call runs at a time, and each atomic addition to a
  counter is one step of it. The pool, the connections and the two encoding functions
  are outside the package; they are parameters of the model. Every interaction with them
  is appended to an event log, and what the pool and a connection answer may depend on
  the whole log so far, so that no behaviour of the store is excluded.

  The receiver, the \<open>*Item\<close> argument, the pool and the two function fields are taken to
  be non-nil; the \<open>conn\<close> field is the one nilable value the code itself tests.
\<close>

subsection \<open>Errors\<close>

text \<open>
  \<open>ErrCacheMiss\<close> is the package's own sentinel (line 11), \<open>ErrNil\<close> is redigo's.
  \<open>Fault\<close> stands for any other error value made outside the package, \<open>RedisError\<close>
  for an error reply of the server and \<open>UnexpectedType\<close> for the error redigo's
  \<open>Bytes\<close> makes for a reply that is neither bytes nor a string.
  \<open>WithStack\<close> and \<open>Wrap\<close> are the two wrappers of pkg/errors: each call allocates a
  new error value around its cause, so a wrapped error is never identical to a sentinel.
\<close>

datatype error =
    ErrCacheMiss
  | ErrNil
  | Fault string
  | RedisError string
  | UnexpectedType
  | WithStack error
  | Wrap error string

text \<open>A call of a Go function either returns or panics.\<close>

datatype 'a outcome = Return 'a | Panic

subsection \<open>The store client\<close>

type_synonym bytes = "8 word list"
type_synonym conn = nat

text \<open>The two commands the package sends, with their arguments (lines 67-72 and 85).\<close>

datatype command =
    SETEX string int bytes
  | GET string

text \<open>What \<open>conn.Do\<close> can hand back as its first result.\<close>

datatype reply =
    RNil
  | RBulk bytes
  | RStatus string
  | RInteger int
  | RError string
  | RArray "reply list"

datatype event =
    CallMarshal
  | Acquire conn
  | Do conn command
  | Close conn
  | CallUnmarshal bytes

text \<open>
  \<open>pool\<close> is \<open>c.Redis.Get()\<close>: the connection the pool hands out, given the history.
  \<open>conn_err\<close> is \<open>conn.Err()\<close> and \<open>conn_do\<close> is \<open>conn.Do(...)\<close>.
\<close>

type_synonym pool = "event list \<Rightarrow> conn"

record env =
  conn_err :: "event list \<Rightarrow> conn \<Rightarrow> error option"
  conn_do :: "event list \<Rightarrow> conn \<Rightarrow> command \<Rightarrow> reply \<times> error option"

text \<open>
  redigo's \<open>redis.Bytes(reply, err)\<close>, the helper line 85 passes the reply through: an
  error is handed on, bytes and strings are returned as bytes, a nil reply becomes
  \<open>ErrNil\<close>, an error reply becomes that error, and any other reply is an error.
\<close>

fun Bytes :: "reply \<times> error option \<Rightarrow> bytes \<times> error option" where
  "Bytes (r, Some err) = ([], Some err)"
| "Bytes (RBulk b, None) = (b, None)"
| "Bytes (RStatus s, None) = (map of_char s, None)"
| "Bytes (RNil, None) = ([], Some ErrNil)"
| "Bytes (RError m, None) = ([], Some (RedisError m))"
| "Bytes (r, None) = ([], Some UnexpectedType)"

subsection \<open>Durations and their seconds\<close>

text \<open>
  \<open>time.Duration\<close> is an int64 count of nanoseconds; \<open>time.Second\<close> is \<open>10\<^sup>9\<close> and
  \<open>time.Minute\<close> is sixty of them.
\<close>

type_synonym Duration = "64 word"

definition Second :: int where
  "Second = 1000000000"

definition Minute :: int where
  "Minute = 60 * Second"

text \<open>
  \<open>Duration.Seconds\<close> computes in float64. A float64 is modelled as the pair of an integer
  significand \<open>m\<close> and a binary exponent \<open>e\<close>, denoting \<open>m * 2\<^sup>e\<close>. An operation
  computes the exact result as a fraction and rounds it to the nearest number with a
  significand of 53 bits, ties to the even significand. Infinities, NaN and subnormal
  numbers are left out: the magnitudes that occur here lie between \<open>10\<^sup>-\<^sup>9\<close> and
  \<open>10\<^sup>1\<^sup>0\<close>. Go's \<open>int\<close> is taken to be 64 bits wide, so that the conversion of the
  seconds of any duration is in range.
\<close>

type_synonym float64 = "int \<times> int"

text \<open>The number a float64 denotes.\<close>

definition valf :: "float64 \<Rightarrow> rat" where
  "valf f = of_int (fst f) * 2 powi (snd f)"

text \<open>
  The integer nearest to \<open>n / d\<close>, for \<open>0 < d\<close>; of two integers equally near, the even
  one.
\<close>

definition round_half_even :: "int \<Rightarrow> int \<Rightarrow> int" where
  "round_half_even n d =
     (let m = n div d;
          r = n mod d
      in if 2 * r < d then m
         else if d < 2 * r then m + 1
         else if even m then m else m + 1)"

text \<open>
  The float64 nearest to \<open>p / q\<close>, for \<open>0 \<le> p\<close> and \<open>0 < q\<close>. \<open>bitlen\<close> is the number of
  binary digits, so \<open>p / q\<close> lies between \<open>2\<^sup>e\<^sup>0\<^sup>+\<^sup>5\<^sup>2\<close> and \<open>2\<^sup>e\<^sup>0\<^sup>+\<^sup>5\<^sup>4\<close>; the exponent
  \<open>e\<close> is the one for which \<open>p / q\<close> is \<open>n / d\<close> times \<open>2\<^sup>e\<close> with \<open>n / d\<close> between
  \<open>2\<^sup>5\<^sup>2\<close> and \<open>2\<^sup>5\<^sup>3\<close>.
\<close>

definition round_frac :: "int \<Rightarrow> int \<Rightarrow> float64" where
  "round_frac p q =
     (if p = 0 then (0, 0)
      else
        let e0 = bitlen p - bitlen q - 53;
            n = (if e0 < 0 then p * 2 ^ nat (- e0) else p);
            d0 = (if e0 < 0 then q else q * 2 ^ nat e0);
            e = (if n < 2 ^ 53 * d0 then e0 else e0 + 1);
            d = (if n < 2 ^ 53 * d0 then d0 else 2 * d0)
        in (round_half_even n d, e))"

definition f64_of_frac :: "int \<Rightarrow> int \<Rightarrow> float64" where
  "f64_of_frac p q =
     (if p < 0 then (let (m, e) = round_frac (- p) q in (- m, e)) else round_frac p q)"

text \<open>The conversion \<open>float64(i)\<close> of an integer.\<close>

definition f64_of_int :: "int \<Rightarrow> float64" where
  "f64_of_int i = f64_of_frac i 1"

definition f64_add :: "float64 \<Rightarrow> float64 \<Rightarrow> float64" where
  "f64_add x y =
     (let (m1, e1) = x; (m2, e2) = y;
          e = min e1 e2;
          (m, e') = f64_of_frac (m1 * 2 ^ nat (e1 - e) + m2 * 2 ^ nat (e2 - e)) 1
      in (m, e' + e))"

text \<open>Division by a float64 other than zero.\<close>

definition f64_div :: "float64 \<Rightarrow> float64 \<Rightarrow> float64" where
  "f64_div x y =
     (let (m1, e1) = x; (m2, e2) = y;
          (m, e') = f64_of_frac (m1 * sgn m2) \<bar>m2\<bar>
      in (m, e' + e1 - e2))"

text \<open>The conversion \<open>int(f)\<close> of a float64 drops the fraction.\<close>

definition go_int :: "float64 \<Rightarrow> int" where
  "go_int f =
     (let (m, e) = f
      in if 0 \<le> e then m * 2 ^ nat e else sgn m * (\<bar>m\<bar> div 2 ^ nat (- e)))"

text \<open>Go's integer division and remainder truncate towards zero.\<close>

definition quo :: "int \<Rightarrow> int \<Rightarrow> int" where
  "quo a b = sgn a * sgn b * (\<bar>a\<bar> div \<bar>b\<bar>)"

definition rem :: "int \<Rightarrow> int \<Rightarrow> int" where
  "rem a b = a - b * quo a b"

text \<open>
  \<^verbatim>\<open>sec := d / Second; nsec := d % Second; return float64(sec) + float64(nsec)/1e9\<close>
\<close>

definition Seconds :: "int \<Rightarrow> float64" where
  "Seconds d =
     (let sec = quo d Second;
          nsec = rem d Second
      in f64_add (f64_of_int sec) (f64_div (f64_of_int nsec) (f64_of_int 1000000000)))"

subsection \<open>The cache\<close>

text \<open>
  The struct of lines 17-25. \<open>'o\<close> is the type of the cached objects. \<open>Marshal\<close>
  returns the bytes and the error; \<open>Unmarshal\<close> writes through its second argument, so
  the model hands back the destination as the call left it, with the error.
\<close>

record 'o Cache =
  Redis :: pool
  Marshal :: "'o \<Rightarrow> bytes \<times> error option"
  Unmarshal :: "bytes \<Rightarrow> 'o \<Rightarrow> 'o \<times> error option"
  conn :: "conn option"
  hits :: "64 word"
  misses :: "64 word"

record 'o Item =
  Key :: string
  Object :: 'o
  Expiration :: Duration

record Stats =
  Hits :: "64 word"
  Misses :: "64 word"

text \<open>Lines 33-39: the fields not named in the literal have their zero values.\<close>

definition NewRedisCache ::
  "pool \<Rightarrow> ('o \<Rightarrow> bytes \<times> error option) \<Rightarrow> (bytes \<Rightarrow> 'o \<Rightarrow> 'o \<times> error option) \<Rightarrow> 'o Cache" where
  "NewRedisCache redis marshalFunc unmarshalFunc =
     \<lparr>Redis = redis, Marshal = marshalFunc, Unmarshal = unmarshalFunc,
      conn = None, hits = 0, misses = 0\<rparr>"

text \<open>
  Lines 41-49. The local \<open>conn\<close> of line 43 is returned only together with an error;
  line 48 returns the field. The method has a pointer receiver, so the cache is part of
  the result.
\<close>

definition getConn ::
  "env \<Rightarrow> 'o Cache \<Rightarrow> event list \<Rightarrow> conn option \<times> error option \<times> 'o Cache \<times> event list" where
  "getConn env c tr =
     (case conn c of
        None \<Rightarrow>
          (let k = Redis c tr;
               tr1 = tr @ [Acquire k]
           in case conn_err env tr1 k of
                Some err \<Rightarrow> (Some k, Some (WithStack err), c, tr1)
              | None \<Rightarrow> (conn c, None, c, tr1))
      | Some k \<Rightarrow> (conn c, None, c, tr))"

text \<open>
  Lines 51-76. \<open>defer conn.Close()\<close> on a nil interface value panics when the statement
  is reached; otherwise the close runs when the function returns.
\<close>

definition Set ::
  "env \<Rightarrow> 'o Cache \<Rightarrow> 'o Item \<Rightarrow> event list \<Rightarrow> error option outcome \<times> 'o Cache \<times> event list" where
  "Set env c item tr =
     (let tr0 = tr @ [CallMarshal]
      in case Marshal c (Object item) of
           (b, Some err) \<Rightarrow> (Return (Some (Wrap err ''marshal failed'')), c, tr0)
         | (b, None) \<Rightarrow>
             (case getConn env c tr0 of
                (cn, Some err, c1, tr1) \<Rightarrow>
                  (Return (Some (Wrap err ''getConn failed'')), c1, tr1)
              | (None, None, c1, tr1) \<Rightarrow> (Panic, c1, tr1)
              | (Some k, None, c1, tr1) \<Rightarrow>
                  (let expire = (if sint (Expiration item) < Second then 2 * Minute
                                 else sint (Expiration item));
                       args = SETEX (Key item) (go_int (Seconds expire)) b;
                       tr2 = tr1 @ [Do k args]
                   in case snd (conn_do env tr1 k args) of
                        Some err \<Rightarrow>
                          (Return (Some (Wrap err ''Redis SETEX failed'')), c1, tr2 @ [Close k])
                      | None \<Rightarrow> (Return None, c1, tr2 @ [Close k]))))"

text \<open>Lines 78-101. The third component of the result is the destination object.\<close>

definition Get ::
  "env \<Rightarrow> 'o Cache \<Rightarrow> string \<Rightarrow> 'o \<Rightarrow> event list
     \<Rightarrow> error option outcome \<times> 'o Cache \<times> 'o \<times> event list" where
  "Get env c key object tr =
     (case getConn env c tr of
        (cn, Some err, c1, tr1) \<Rightarrow>
          (Return (Some (Wrap err ''getConn failed'')), c1, object, tr1)
      | (None, None, c1, tr1) \<Rightarrow> (Panic, c1, object, tr1)
      | (Some k, None, c1, tr1) \<Rightarrow>
          (let tr2 = tr1 @ [Do k (GET key)]
           in case Bytes (conn_do env tr1 k (GET key)) of
                (b, Some err) \<Rightarrow>
                  (if err = ErrNil
                   then (Return (Some ErrCacheMiss), c1\<lparr>misses := misses c1 + 1\<rparr>, object,
                         tr2 @ [Close k])
                   else (Return (Some (Wrap err ''Redis GET failed'')), c1, object,
                         tr2 @ [Close k]))
              | (b, None) \<Rightarrow>
                  (let c2 = c1\<lparr>hits := hits c1 + 1\<rparr>
                   in if length b = 0 then (Return None, c2, object, tr2 @ [Close k])
                      else
                        (case Unmarshal c2 b object of
                           (object', Some err) \<Rightarrow>
                             (Return (Some (Wrap err ''unmarshal failed'')), c2, object',
                              tr2 @ [CallUnmarshal b, Close k])
                         | (object', None) \<Rightarrow>
                             (Return None, c2, object', tr2 @ [CallUnmarshal b, Close k])))))"

text \<open>Lines 108-113.\<close>

definition Stats :: "'o Cache \<Rightarrow> Stats" where
  "Stats c = \<lparr>Hits = hits c, Misses = misses c\<rparr>"

subsection \<open>Sequences of calls\<close>

text \<open>
  A caller makes one call after another on the same cache. A call that panics leaves
  the cache as it was when the panic began.
\<close>

datatype 'o call = CallSet "'o Item" | CallGet string 'o | CallStats

fun step :: "env \<Rightarrow> 'o Cache \<times> event list \<Rightarrow> 'o call \<Rightarrow> 'o Cache \<times> event list" where
  "step env (c, tr) (CallSet item) = (case Set env c item tr of (r, c', tr') \<Rightarrow> (c', tr'))"
| "step env (c, tr) (CallGet key object) =
     (case Get env c key object tr of (r, c', object', tr') \<Rightarrow> (c', tr'))"
| "step env (c, tr) CallStats = (c, tr)"

definition run :: "env \<Rightarrow> 'o Cache \<times> event list \<Rightarrow> 'o call list \<Rightarrow> 'o Cache \<times> event list" where
  "run env s calls = foldl (step env) s calls"

text \<open>The events a call added to the log.\<close>

definition added :: "event list \<Rightarrow> event list \<Rightarrow> event list" where
  "added tr tr' = drop (length tr) tr'"

subsection \<open>Sample stores and a sample cache\<close>

text \<open>
  Concrete collaborators on which the properties below are exercised: a store that holds
  no key, a store that answers every read with the same bytes, a store whose commands
  all fail, and a cache of byte strings whose encoding rejects the empty object and
  whose decoding rejects a payload that contains a zero byte. The pool of the sample
  cache hands out connection 7.
\<close>

definition empty_store :: env where
  "empty_store =
     \<lparr>conn_err = (\<lambda>tr k. None),
      conn_do = (\<lambda>tr k cmd. case cmd of SETEX key ttl b \<Rightarrow> (RStatus ''OK'', None)
                                       | GET key \<Rightarrow> (RNil, None))\<rparr>"

definition store_holding :: "bytes \<Rightarrow> env" where
  "store_holding v =
     \<lparr>conn_err = (\<lambda>tr k. None),
      conn_do = (\<lambda>tr k cmd. case cmd of SETEX key ttl b \<Rightarrow> (RStatus ''OK'', None)
                                       | GET key \<Rightarrow> (RBulk v, None))\<rparr>"

definition broken_store :: env where
  "broken_store =
     \<lparr>conn_err = (\<lambda>tr k. None),
      conn_do = (\<lambda>tr k cmd. (RNil, Some (Fault ''connection reset'')))\<rparr>"

definition bytes_cache :: "bytes Cache" where
  "bytes_cache =
     NewRedisCache (\<lambda>tr. 7)
       (\<lambda>x. if x = [] then ([], Some (Fault ''nothing to encode'')) else (x, None))
       (\<lambda>b x. if 0 \<in> set b then (x, Some (Fault ''bad payload'')) else (b, None))"

section \<open>Properties\<close>

subsection \<open>The paths through the two operations\<close>

text \<open>With the field set, \<open>getConn\<close> hands it back and touches nothing.\<close>

lemma getConn_Some: "conn c = Some k \<Longrightarrow> getConn env c tr = (Some k, None, c, tr)"
  by (simp add: getConn_def)

text \<open>
  Every call of \<open>Get\<close> takes one of six paths: the pool's connection reports an error;
  the field is nil and the deferred close panics; the read finds no key; the read fails
  otherwise; the read yields no bytes; the read yields bytes, which are unmarshalled.
\<close>

lemma Get_cases:
  assumes "Get env c key object tr = (r, c', object', tr')"
  shows "(\<exists>e. r = Return (Some (Wrap (WithStack e) ''getConn failed'')) \<and> conn c = None
            \<and> c' = c \<and> object' = object \<and> tr' = tr @ [Acquire (Redis c tr)])
         \<or> (r = Panic \<and> conn c = None \<and> c' = c \<and> object' = object
            \<and> tr' = tr @ [Acquire (Redis c tr)])
         \<or> (\<exists>k b. conn c = Some k \<and> Bytes (conn_do env tr k (GET key)) = (b, Some ErrNil)
            \<and> r = Return (Some ErrCacheMiss) \<and> c' = c\<lparr>misses := misses c + 1\<rparr>
            \<and> object' = object \<and> tr' = tr @ [Do k (GET key), Close k])
         \<or> (\<exists>k b e. conn c = Some k \<and> Bytes (conn_do env tr k (GET key)) = (b, Some e)
            \<and> e \<noteq> ErrNil \<and> r = Return (Some (Wrap e ''Redis GET failed'')) \<and> c' = c
            \<and> object' = object \<and> tr' = tr @ [Do k (GET key), Close k])
         \<or> (\<exists>k. conn c = Some k \<and> Bytes (conn_do env tr k (GET key)) = ([], None)
            \<and> r = Return None \<and> c' = c\<lparr>hits := hits c + 1\<rparr>
            \<and> object' = object \<and> tr' = tr @ [Do k (GET key), Close k])
         \<or> (\<exists>k b e. conn c = Some k \<and> Bytes (conn_do env tr k (GET key)) = (b, None)
            \<and> b \<noteq> [] \<and> Unmarshal c b object = (object', e)
            \<and> r = Return (map_option (\<lambda>err. Wrap err ''unmarshal failed'') e)
            \<and> c' = c\<lparr>hits := hits c + 1\<rparr>
            \<and> tr' = tr @ [Do k (GET key), CallUnmarshal b, Close k])"
proof (cases "conn c")
  case None
  then show ?thesis
    using assms by (auto simp: Get_def getConn_def Let_def split: option.splits)
next
  case (Some k)
  obtain b e where be: "Bytes (conn_do env tr k (GET key)) = (b, e)"
    by (cases "Bytes (conn_do env tr k (GET key))")
  show ?thesis
  proof (cases e)
    case (Some err)
    then show ?thesis
      using assms \<open>conn c = Some k\<close> be
      by (auto simp: Get_def getConn_Some Let_def split: if_splits)
  next
    case None
    then show ?thesis
      using assms \<open>conn c = Some k\<close> be
      by (auto simp: Get_def getConn_Some Let_def split: if_splits prod.splits option.splits)
  qed
qed

text \<open>
  Every call of \<open>Set\<close> leaves the cache as it was and takes one of four paths: the
  marshalling fails; the pool's connection reports an error; the field is nil and the
  deferred close panics; the command is sent and the connection closed.
\<close>

lemma Set_cases:
  assumes "Set env c item tr = (r, c', tr')"
  shows "c' = c
         \<and> ((\<exists>b e. Marshal c (Object item) = (b, Some e)
               \<and> r = Return (Some (Wrap e ''marshal failed'')) \<and> tr' = tr @ [CallMarshal])
            \<or> (\<exists>b e. Marshal c (Object item) = (b, None) \<and> conn c = None
               \<and> r = Return (Some (Wrap (WithStack e) ''getConn failed''))
               \<and> tr' = tr @ [CallMarshal, Acquire (Redis c (tr @ [CallMarshal]))])
            \<or> (\<exists>b. Marshal c (Object item) = (b, None) \<and> conn c = None \<and> r = Panic
               \<and> tr' = tr @ [CallMarshal, Acquire (Redis c (tr @ [CallMarshal]))])
            \<or> (\<exists>b k ttl. Marshal c (Object item) = (b, None) \<and> conn c = Some k
               \<and> tr' = tr @ [CallMarshal, Do k (SETEX (Key item) ttl b), Close k]))"
proof (cases "conn c")
  case None
  then show ?thesis
    using assms
    by (auto simp: Set_def getConn_def Let_def split: option.splits prod.splits)
next
  case (Some k)
  then show ?thesis
    using assms
    by (auto simp: Set_def getConn_Some Let_def split: option.splits prod.splits)
qed

lemma Set_cache: "fst (snd (Set env c item tr)) = c"
  using Set_cases [of env c item tr] by (cases "Set env c item tr") auto

lemma Get_conn: "conn (fst (snd (Get env c key object tr))) = conn c"
  using Get_cases [of env c key object tr] by (cases "Get env c key object tr") auto

lemma getConn_cache: "fst (snd (snd (getConn env c tr))) = c"
  by (simp add: getConn_def Let_def split: option.splits)

lemma step_conn: "conn (fst (step env s call)) = conn (fst s)"
proof (cases s)
  case (Pair c tr)
  show ?thesis
  proof (cases call)
    case (CallSet item)
    then show ?thesis
      using Set_cache [of env c item tr] Pair by (auto split: prod.splits)
  next
    case (CallGet key object)
    then show ?thesis
      using Get_conn [of env c key object tr] Pair by (auto split: prod.splits)
  next
    case CallStats
    then show ?thesis using Pair by simp
  qed
qed

lemma run_conn: "conn (fst (run env s calls)) = conn (fst s)"
  unfolding run_def by (induction calls arbitrary: s) (simp_all add: step_conn)

subsection \<open>Reading\<close>

text \<open>
  By \<open>Get_cases\<close> and \<open>Set_cases\<close> a command reaches the store only from a cache whose
  \<open>conn\<close> field is set. \<open>NewRedisCache\<close> leaves the field nil, no operation assigns it
  and it is unexported, so such a cache is made by code inside the package. The
  properties of a read or a write that got an answer are stated for these caches.
\<close>

text \<open>
  Claim C2. When the read of a key is answered with the missing-key signal (redigo's
  \<open>ErrNil\<close>), \<open>Get\<close> adds one to the miss counter, leaves the hit counter and the
  destination alone and returns the sentinel \<open>ErrCacheMiss\<close> itself, with no wrapper
  around it. The counter is a uint64: the addition is modulo \<open>2\<^sup>6\<^sup>4\<close>.
\<close>

theorem Get_miss:
  assumes "conn c = Some k"
    and "Bytes (conn_do env tr k (GET key)) = (b, Some ErrNil)"
  shows "Get env c key object tr =
           (Return (Some ErrCacheMiss), c\<lparr>misses := misses c + 1\<rparr>, object,
            tr @ [Do k (GET key), Close k])"
  using assms by (simp add: Get_def getConn_Some)

theorem Get_miss_witness:
  "conn (bytes_cache\<lparr>conn := Some 3\<rparr>) = Some 3
   \<and> Bytes (conn_do empty_store [] 3 (GET ''k'')) = ([], Some ErrNil)
   \<and> Get empty_store (bytes_cache\<lparr>conn := Some 3\<rparr>) ''k'' [5] []
       = (Return (Some ErrCacheMiss), bytes_cache\<lparr>conn := Some 3, misses := 1\<rparr>, [5],
          [Do 3 (GET ''k''), Close 3])"
  using Get_miss [of "bytes_cache\<lparr>conn := Some 3\<rparr>" 3 empty_store "[]" "''k''" "[]" "[5]"]
  by (simp add: empty_store_def bytes_cache_def NewRedisCache_def)

text \<open>
  Claim C3. When the read succeeds, \<open>Get\<close> adds one to the hit counter and leaves the
  miss counter alone, whatever the decoding does; when the bytes are not empty and the
  unmarshal function fails, \<open>Get\<close> returns that error wrapped as "unmarshal failed",
  and the hit stays counted.
\<close>

theorem Get_hit:
  assumes "conn c = Some k"
    and "Bytes (conn_do env tr k (GET key)) = (b, None)"
  shows "hits (fst (snd (Get env c key object tr))) = hits c + 1
         \<and> misses (fst (snd (Get env c key object tr))) = misses c
         \<and> (length b \<noteq> 0 \<and> snd (Unmarshal c b object) = Some err \<longrightarrow>
              fst (Get env c key object tr) = Return (Some (Wrap err ''unmarshal failed'')))"
  using assms by (simp add: Get_def getConn_Some Let_def split: prod.splits option.splits)

theorem Get_hit_witness:
  "conn (bytes_cache\<lparr>conn := Some 3\<rparr>) = Some 3
   \<and> Bytes (conn_do (store_holding [0, 1]) [] 3 (GET ''k'')) = ([0, 1], None)
   \<and> length ([0, 1] :: bytes) \<noteq> 0
   \<and> snd (Unmarshal (bytes_cache\<lparr>conn := Some 3\<rparr>) [0, 1] [5]) = Some (Fault ''bad payload'')
   \<and> hits (fst (snd (Get (store_holding [0, 1]) (bytes_cache\<lparr>conn := Some 3\<rparr>) ''k'' [5] []))) = 1
   \<and> misses (fst (snd (Get (store_holding [0, 1]) (bytes_cache\<lparr>conn := Some 3\<rparr>) ''k'' [5] []))) = 0
   \<and> fst (Get (store_holding [0, 1]) (bytes_cache\<lparr>conn := Some 3\<rparr>) ''k'' [5] [])
       = Return (Some (Wrap (Fault ''bad payload'') ''unmarshal failed''))"
  using Get_hit [of "bytes_cache\<lparr>conn := Some 3\<rparr>" 3 "store_holding [0, 1]" "[]" "''k''"
      "[0, 1]" "[5]" "Fault ''bad payload''"]
  by (simp add: store_holding_def bytes_cache_def NewRedisCache_def)

text \<open>
  Claim C4. When the read succeeds with no bytes, \<open>Get\<close> returns nil and adds one to
  the hit counter; the destination is the one passed in, and the only events are the
  command and the close: the unmarshal function is not called.
\<close>

theorem Get_empty_payload:
  assumes "conn c = Some k"
    and "Bytes (conn_do env tr k (GET key)) = (b, None)"
    and "length b = 0"
  shows "Get env c key object tr =
           (Return None, c\<lparr>hits := hits c + 1\<rparr>, object, tr @ [Do k (GET key), Close k])"
  using assms by (simp add: Get_def getConn_Some)

theorem Get_empty_payload_witness:
  "conn (bytes_cache\<lparr>conn := Some 3\<rparr>) = Some 3
   \<and> Bytes (conn_do (store_holding []) [] 3 (GET ''k'')) = ([], None)
   \<and> length ([] :: bytes) = 0
   \<and> Get (store_holding []) (bytes_cache\<lparr>conn := Some 3\<rparr>) ''k'' [5] []
       = (Return None, bytes_cache\<lparr>conn := Some 3, hits := 1\<rparr>, [5],
          [Do 3 (GET ''k''), Close 3])"
  using Get_empty_payload [of "bytes_cache\<lparr>conn := Some 3\<rparr>" 3 "store_holding []" "[]" "''k''"
      "[]" "[5]"]
  by (simp add: store_holding_def bytes_cache_def NewRedisCache_def)

text \<open>
  Claim C8. When the read fails with an error other than the missing-key signal, \<open>Get\<close>
  returns that error wrapped as "Redis GET failed" and leaves both counters and the
  destination alone.
\<close>

theorem Get_read_failure:
  assumes "conn c = Some k"
    and "Bytes (conn_do env tr k (GET key)) = (b, Some err)"
    and "err \<noteq> ErrNil"
  shows "Get env c key object tr =
           (Return (Some (Wrap err ''Redis GET failed'')), c, object,
            tr @ [Do k (GET key), Close k])"
  using assms by (simp add: Get_def getConn_Some)

theorem Get_read_failure_witness:
  "conn (bytes_cache\<lparr>conn := Some 3\<rparr>) = Some 3
   \<and> Bytes (conn_do broken_store [] 3 (GET ''k'')) = ([], Some (Fault ''connection reset''))
   \<and> Fault ''connection reset'' \<noteq> ErrNil
   \<and> Get broken_store (bytes_cache\<lparr>conn := Some 3\<rparr>) ''k'' [5] []
       = (Return (Some (Wrap (Fault ''connection reset'') ''Redis GET failed'')),
          bytes_cache\<lparr>conn := Some 3\<rparr>, [5], [Do 3 (GET ''k''), Close 3])"
  using Get_read_failure [of "bytes_cache\<lparr>conn := Some 3\<rparr>" 3 broken_store "[]" "''k''" "[]"
      "Fault ''connection reset''" "[5]"]
  by (simp add: broken_store_def bytes_cache_def NewRedisCache_def)

text \<open>
  Claim C10. A \<open>Get\<close> that returns \<open>ErrCacheMiss\<close> or a wrapped read failure leaves the
  destination as it was and does not call the unmarshal function. The unmarshal
  function is called only on bytes that a successful read returned and that are not
  empty, and the destination differs from the one passed in only through that call.
\<close>

theorem Get_unmarshal_only_on_payload:
  assumes "Get env c key object tr = (r, c', object', tr')"
  shows "((r = Return (Some ErrCacheMiss) \<or> (\<exists>e. r = Return (Some (Wrap e ''Redis GET failed''))))
            \<longrightarrow> object' = object \<and> (\<forall>b. CallUnmarshal b \<notin> set (added tr tr')))
         \<and> (\<forall>b. CallUnmarshal b \<in> set (added tr tr') \<longrightarrow>
               length b \<noteq> 0 \<and> object' = fst (Unmarshal c b object)
               \<and> (\<exists>k. conn c = Some k \<and> Bytes (conn_do env tr k (GET key)) = (b, None)))
         \<and> ((\<forall>b. CallUnmarshal b \<notin> set (added tr tr')) \<longrightarrow> object' = object)"
  using Get_cases [OF assms] by (auto simp: added_def)

theorem Get_unmarshal_only_on_payload_witness:
  "Get empty_store (bytes_cache\<lparr>conn := Some 3\<rparr>) ''k'' [5] []
     = (Return (Some ErrCacheMiss), bytes_cache\<lparr>conn := Some 3, misses := 1\<rparr>, [5],
        [Do 3 (GET ''k''), Close 3])
   \<and> (\<forall>b. CallUnmarshal b \<notin> set (added [] [Do 3 (GET ''k''), Close 3]))
   \<and> Get (store_holding [9]) (bytes_cache\<lparr>conn := Some 3\<rparr>) ''k'' [5] []
     = (Return None, bytes_cache\<lparr>conn := Some 3, hits := 1\<rparr>, [9],
        [Do 3 (GET ''k''), CallUnmarshal [9], Close 3])
   \<and> CallUnmarshal [9] \<in> set (added [] [Do 3 (GET ''k''), CallUnmarshal [9], Close 3])
   \<and> length ([9] :: bytes) \<noteq> 0
   \<and> [9] = fst (Unmarshal (bytes_cache\<lparr>conn := Some 3\<rparr>) [9] [5])
   \<and> (\<exists>k. conn (bytes_cache\<lparr>conn := Some 3\<rparr>) = Some k
          \<and> Bytes (conn_do (store_holding [9]) [] k (GET ''k'')) = ([9], None))"
proof -
  have miss: "Get empty_store (bytes_cache\<lparr>conn := Some 3\<rparr>) ''k'' [5] []
     = (Return (Some ErrCacheMiss), bytes_cache\<lparr>conn := Some 3, misses := 1\<rparr>, [5],
        [Do 3 (GET ''k''), Close 3])"
    by (simp add: Get_def getConn_def empty_store_def bytes_cache_def NewRedisCache_def)
  have hit: "Get (store_holding [9]) (bytes_cache\<lparr>conn := Some 3\<rparr>) ''k'' [5] []
     = (Return None, bytes_cache\<lparr>conn := Some 3, hits := 1\<rparr>, [9],
        [Do 3 (GET ''k''), CallUnmarshal [9], Close 3])"
    by (simp add: Get_def getConn_def store_holding_def bytes_cache_def NewRedisCache_def)
  have in_log: "CallUnmarshal [9] \<in> set (added [] [Do 3 (GET ''k''), CallUnmarshal [9], Close 3])"
    by (simp add: added_def)
  show ?thesis
    using miss hit in_log
      Get_unmarshal_only_on_payload [OF miss] Get_unmarshal_only_on_payload [OF hit]
    by blast
qed

subsection \<open>The connection field\<close>

text \<open>
  Claim C6. On a cache whose \<open>conn\<close> field is nil, as \<open>NewRedisCache\<close> leaves it, and
  with a pool whose connection reports no error, \<open>getConn\<close> takes a connection from the
  pool, does not store it, and returns the nil field with no error. No operation
  assigns the field: it has the same value after \<open>getConn\<close>, \<open>Set\<close>, \<open>Get\<close> and after
  any sequence of calls.
\<close>

theorem conn_field_never_populated:
  "(conn c = None \<and> conn_err env (tr @ [Acquire (Redis c tr)]) (Redis c tr) = None \<longrightarrow>
      getConn env c tr = (None, None, c, tr @ [Acquire (Redis c tr)]))
   \<and> conn (fst (snd (snd (getConn env c tr)))) = conn c
   \<and> conn (fst (snd (Set env c item tr))) = conn c
   \<and> conn (fst (snd (Get env c key object tr))) = conn c
   \<and> conn (fst (run env (c, tr) calls)) = conn c
   \<and> conn (NewRedisCache redis marshalFunc unmarshalFunc :: 'o Cache) = None"
  by (simp add: getConn_cache Set_cache Get_conn run_conn NewRedisCache_def)
    (simp add: getConn_def)

theorem conn_field_never_populated_witness:
  "conn bytes_cache = None
   \<and> conn_err empty_store ([] @ [Acquire (Redis bytes_cache [])]) (Redis bytes_cache []) = None
   \<and> getConn empty_store bytes_cache [] = (None, None, bytes_cache, [Acquire 7])
   \<and> conn (fst (run empty_store (bytes_cache, [])
        [CallSet \<lparr>Key = ''k'', Object = [1], Expiration = 5000000000\<rparr>, CallGet ''k'' [], CallStats]))
       = None"
  using conn_field_never_populated [of bytes_cache empty_store "[]" _ _ _
      "[CallSet \<lparr>Key = ''k'', Object = [1], Expiration = 5000000000\<rparr>, CallGet ''k'' [], CallStats]"]
  by (simp add: empty_store_def bytes_cache_def NewRedisCache_def)

subsection \<open>Rounding to a float64\<close>

text \<open>Integer division, and the nearest integer to a fraction.\<close>

lemma int_div_bounds:
  fixes n d :: int
  assumes "0 < d"
  shows "d * (n div d) \<le> n" and "n < d * (n div d) + d"
proof -
  have nd: "n = d * (n div d) + n mod d" by simp
  have r: "0 \<le> n mod d" "n mod d < d"
    using assms by simp_all
  show "d * (n div d) \<le> n" using nd r by linarith
  show "n < d * (n div d) + d" using nd r by linarith
qed

lemma int_div_less:
  fixes n d b :: int
  assumes "0 < d" and "n < d * b"
  shows "n div d < b"
proof (rule ccontr)
  assume "\<not> n div d < b"
  then have "b \<le> n div d" by simp
  then have "d * b \<le> d * (n div d)"
    using assms(1) by simp
  with int_div_bounds(1) [OF assms(1), of n] assms(2) show False by linarith
qed

lemma int_div_ge:
  fixes n d a :: int
  assumes "0 < d" and "d * a \<le> n"
  shows "a \<le> n div d"
proof (rule ccontr)
  assume "\<not> a \<le> n div d"
  then have "n div d + 1 \<le> a" by simp
  then have "d * (n div d + 1) \<le> d * a"
    using assms(1) by (simp only: mult_le_cancel_left_pos)
  with int_div_bounds(2) [OF assms(1), of n] assms(2) show False
    by (simp add: algebra_simps)
qed

lemma rat_le_to_int:
  fixes n d a :: int
  assumes "0 < d"
  shows "(of_int a \<le> (of_int n / of_int d :: rat)) = (d * a \<le> n)"
    and "((of_int n / of_int d :: rat) \<le> of_int a) = (n \<le> d * a)"
proof -
  have "(of_int a \<le> (of_int n / of_int d :: rat)) = ((of_int (d * a) :: rat) \<le> of_int n)"
    using assms by (simp add: pos_le_divide_eq mult.commute)
  then show "(of_int a \<le> (of_int n / of_int d :: rat)) = (d * a \<le> n)"
    by (simp only: of_int_le_iff)
  have "((of_int n / of_int d :: rat) \<le> of_int a) = ((of_int n :: rat) \<le> of_int (d * a))"
    using assms by (simp add: pos_divide_le_eq mult.commute)
  then show "((of_int n / of_int d :: rat) \<le> of_int a) = (n \<le> d * a)"
    by (simp only: of_int_le_iff)
qed

lemma round_half_even_ge:
  assumes "0 < d" and "of_int a \<le> (of_int n / of_int d :: rat)"
  shows "a \<le> round_half_even n d"
proof -
  have "a \<le> n div d"
    using assms by (simp add: rat_le_to_int int_div_ge)
  then show ?thesis
    by (auto simp: round_half_even_def Let_def)
qed

lemma round_half_even_le:
  assumes "0 < d" and "(of_int n / of_int d :: rat) \<le> of_int b"
  shows "round_half_even n d \<le> b"
proof -
  have nb: "n \<le> d * b"
    using assms by (simp add: rat_le_to_int)
  show ?thesis
  proof (cases "n = d * b")
    case True
    then show ?thesis
      using assms(1) by (simp add: round_half_even_def)
  next
    case False
    with nb have "n < d * b" by simp
    then have "n div d < b"
      using assms(1) by (simp add: int_div_less)
    then show ?thesis
      by (auto simp: round_half_even_def Let_def)
  qed
qed

lemma round_half_even_below_half:
  assumes "0 < d" and "(of_int n / of_int d :: rat) < of_int b - 1 / 2"
  shows "round_half_even n d \<le> b - 1"
proof -
  have "2 * of_int n < (2 * of_int b - 1) * (of_int d :: rat)"
    using assms by (simp add: pos_divide_less_eq field_simps)
  then have "(of_int (2 * n) :: rat) < of_int (2 * (d * b) - d)"
    by (simp add: algebra_simps)
  then have lt: "2 * n < 2 * (d * b) - d"
    by (simp only: of_int_less_iff)
  have nd: "n = d * (n div d) + n mod d" by simp
  have "n < d * b" using lt assms(1) by simp
  then have le: "n div d \<le> b - 1"
    using int_div_less [OF assms(1), of n b] by simp
  have "2 * (n mod d) < d" if "n div d = b - 1"
  proof -
    have "n = d * (b - 1) + n mod d" using nd that by simp
    then have "2 * n = 2 * (d * b) - 2 * d + 2 * (n mod d)"
      by (simp add: algebra_simps)
    with lt show ?thesis by simp
  qed
  with le have "n div d \<le> b - 2 \<or> 2 * (n mod d) < d"
    by (cases "n div d = b - 1") auto
  then show ?thesis
    using le by (auto simp: round_half_even_def Let_def)
qed

lemma round_half_even_upper:
  assumes "0 < d"
  shows "2 * (d * round_half_even n d) \<le> 2 * n + d"
proof -
  have nd: "n = d * (n div d) + n mod d" by simp
  have r: "0 \<le> n mod d" "n mod d < d"
    using assms by simp_all
  have a: "2 * (d * (n div d)) \<le> 2 * n + d"
    using nd r by linarith
  have b: "2 * (d * (n div d + 1)) \<le> 2 * n + d" if "d \<le> 2 * (n mod d)"
  proof -
    have "2 * (d * (n div d + 1)) = 2 * (d * (n div d)) + 2 * d"
      by (simp add: algebra_simps)
    then show ?thesis
      using nd that by linarith
  qed
  show ?thesis
    using a b by (auto simp: round_half_even_def Let_def)
qed

text \<open>
  \<open>round_frac\<close> scales the fraction into the range from \<open>2\<^sup>5\<^sup>2\<close> to \<open>2\<^sup>5\<^sup>3\<close> and rounds it
  there to the nearest integer.
\<close>

lemma bitlen_powi_bounds:
  assumes "0 < p"
  shows "(2 :: rat) powi (bitlen p - 1) \<le> of_int p" and "(of_int p :: rat) < 2 powi (bitlen p)"
proof -
  have b: "2 ^ nat (bitlen p - 1) \<le> p" "p < 2 ^ nat (bitlen p)"
    using bitlen_bounds [OF assms] by simp_all
  have pos: "1 \<le> bitlen p"
    using assms bitlen_eq_zero_iff [of p] bitlen_nonneg [of p] by linarith
  have "(of_int (2 ^ nat (bitlen p - 1)) :: rat) \<le> of_int p"
    using b(1) by (simp only: of_int_le_iff)
  then show "(2 :: rat) powi (bitlen p - 1) \<le> of_int p"
    using pos by (simp add: power_int_def)
  have "(of_int p :: rat) < of_int (2 ^ nat (bitlen p))"
    using b(2) by (simp only: of_int_less_iff)
  then show "(of_int p :: rat) < 2 powi (bitlen p)"
    using pos by (simp add: power_int_def)
qed

lemma round_frac_normal:
  assumes "0 < p" and "0 < q"
  obtains n d e where "round_frac p q = (round_half_even n d, e)" and "0 < d"
    and "2 ^ 52 \<le> (of_int n / of_int d :: rat)" and "(of_int n / of_int d :: rat) < 2 ^ 53"
    and "(of_int n / of_int d :: rat) = of_int p / of_int q * 2 powi (- e)"
proof -
  define e0 where "e0 = bitlen p - bitlen q - 53"
  define n where "n = (if e0 < 0 then p * 2 ^ nat (- e0) else p)"
  define d0 where "d0 = (if e0 < 0 then q else q * 2 ^ nat e0)"
  define x0 :: rat where "x0 = of_int p / of_int q * 2 powi (- e0)"
  have d0: "0 < d0"
    using assms by (simp add: d0_def)
  have x0: "of_int n / of_int d0 = x0"
  proof (cases "e0 < 0")
    case True
    then show ?thesis
      by (simp add: n_def d0_def x0_def power_int_def)
  next
    case False
    then show ?thesis
      by (simp add: n_def d0_def x0_def power_int_minus power_int_def field_simps)
  qed
  have P: "(2 :: rat) powi (bitlen p - 1) \<le> of_int p" "(of_int p :: rat) < 2 powi (bitlen p)"
    using bitlen_powi_bounds [OF assms(1)] by simp_all
  have Q: "(2 :: rat) powi (bitlen q - 1) \<le> of_int q" "(of_int q :: rat) < 2 powi (bitlen q)"
    using bitlen_powi_bounds [OF assms(2)] by simp_all
  have qpos: "(0 :: rat) < of_int q" and ppos: "(0 :: rat) < of_int p"
    using assms by simp_all
  have lo: "2 ^ 52 < x0"
  proof -
    have "(2 :: rat) ^ 52 = 2 powi (bitlen p - 1) / 2 powi (bitlen q) * 2 powi (- e0)"
      by (simp add: e0_def flip: power_int_diff power_int_add)
    also have "\<dots> \<le> of_int p / 2 powi (bitlen q) * 2 powi (- e0)"
      using P(1) by (simp add: divide_right_mono)
    also have "\<dots> < of_int p / of_int q * 2 powi (- e0)"
      using Q(2) qpos ppos by (simp add: divide_strict_left_mono)
    finally show ?thesis by (simp add: x0_def)
  qed
  have hi: "x0 < 2 ^ 54"
  proof -
    have "x0 < 2 powi (bitlen p) / of_int q * 2 powi (- e0)"
      using P(2) qpos by (simp add: x0_def divide_strict_right_mono)
    also have "\<dots> \<le> 2 powi (bitlen p) / 2 powi (bitlen q - 1) * 2 powi (- e0)"
      using Q(1) qpos by (simp add: divide_left_mono)
    also have "\<dots> = 2 ^ 54"
      by (simp add: e0_def flip: power_int_diff power_int_add)
    finally show ?thesis .
  qed
  have branch: "(n < 2 ^ 53 * d0) = (x0 < 2 ^ 53)"
  proof -
    have "(x0 < 2 ^ 53) = ((of_int n :: rat) < of_int (2 ^ 53 * d0))"
      using d0 by (simp add: pos_divide_less_eq flip: x0)
    then show ?thesis
      by (simp only: of_int_less_iff)
  qed
  have rf: "round_frac p q =
      (if n < 2 ^ 53 * d0 then (round_half_even n d0, e0) else (round_half_even n (2 * d0), e0 + 1))"
    using assms(1) by (simp add: round_frac_def Let_def e0_def n_def d0_def)
  show ?thesis
  proof (cases "x0 < 2 ^ 53")
    case True
    show ?thesis
    proof (rule that [of n d0 e0])
      show "round_frac p q = (round_half_even n d0, e0)"
        using rf branch True by simp
      show "0 < d0" by (fact d0)
      show "2 ^ 52 \<le> (of_int n / of_int d0 :: rat)"
        using lo x0 by simp
      show "(of_int n / of_int d0 :: rat) < 2 ^ 53"
        using True x0 by simp
      show "(of_int n / of_int d0 :: rat) = of_int p / of_int q * 2 powi (- e0)"
        using x0 by (simp add: x0_def)
    qed
  next
    case False
    show ?thesis
    proof (rule that [of n "2 * d0" "e0 + 1"])
      show "round_frac p q = (round_half_even n (2 * d0), e0 + 1)"
        using rf branch False by simp
      show "0 < 2 * d0" using d0 by simp
      have half: "(of_int n / of_int (2 * d0) :: rat) = x0 / 2"
        using x0 by simp
      show "2 ^ 52 \<le> (of_int n / of_int (2 * d0) :: rat)"
        unfolding half using False by simp
      show "(of_int n / of_int (2 * d0) :: rat) < 2 ^ 53"
        unfolding half using hi by simp
      have "(2 :: rat) powi (- (e0 + 1) + 1) = 2 powi (- (e0 + 1)) * 2"
        by (rule power_int_add_1) simp
      then have h: "2 powi (- e0) / 2 = (2 :: rat) powi (- (e0 + 1))"
        by simp
      have "x0 / 2 = of_int p / of_int q * (2 powi (- e0) / 2)"
        by (simp add: x0_def)
      then show "(of_int n / of_int (2 * d0) :: rat) = of_int p / of_int q * 2 powi (- (e0 + 1))"
        unfolding half h .
    qed
  qed
qed

text \<open>
  The significand has 53 bits, the result exceeds the fraction by at most one part in
  \<open>2\<^sup>5\<^sup>3\<close>, and an integer below \<open>2\<^sup>5\<^sup>3\<close> is represented exactly.
\<close>

lemma powi_two_pos: "(0 :: rat) < 2 powi k"
  by (simp add: power_int_def)

lemma powi_two_cancel: "(2 :: rat) powi (- k) * 2 powi k = 1"
  by (simp add: power_int_minus)

lemma powi_two_exponent_ge:
  assumes "(2 :: rat) powi a < 2 powi j"
  shows "a + 1 \<le> j"
proof (rule ccontr)
  assume "\<not> a + 1 \<le> j"
  then have "j \<le> a" by simp
  then have "(2 :: rat) powi j \<le> 2 powi a"
    by (intro power_int_increasing) simp_all
  with assms show False by simp
qed

lemma round_frac_bounds:
  assumes "0 < p" and "0 < q" and "round_frac p q = (m, e)"
  shows "2 ^ 52 \<le> m" and "m \<le> 2 ^ 53"
    and "valf (m, e) \<le> of_int p / of_int q * (1 + 1 / 2 ^ 53)"
proof -
  obtain n d e' where nd: "round_frac p q = (round_half_even n d, e')" "0 < d"
      "2 ^ 52 \<le> (of_int n / of_int d :: rat)" "(of_int n / of_int d :: rat) < 2 ^ 53"
      "(of_int n / of_int d :: rat) = of_int p / of_int q * 2 powi (- e')"
    using round_frac_normal [OF assms(1,2)] by metis
  have m: "m = round_half_even n d" and e: "e = e'"
    using nd(1) assms(3) by simp_all
  define x :: rat where "x = of_int n / of_int d"
  have "of_int (2 ^ 52) \<le> (of_int n / of_int d :: rat)"
    using nd(3) by simp
  from round_half_even_ge [OF nd(2) this] show "2 ^ 52 \<le> m"
    by (simp add: m)
  have "(of_int n / of_int d :: rat) \<le> of_int (2 ^ 53)"
    using nd(4) by simp
  from round_half_even_le [OF nd(2) this] show "m \<le> 2 ^ 53"
    by (simp add: m)
  have "(of_int (2 * (d * m)) :: rat) \<le> of_int (2 * n + d)"
    using round_half_even_upper [OF nd(2), of n] by (simp only: of_int_le_iff m)
  then have "2 * (of_int d * of_int m) \<le> 2 * of_int n + (of_int d :: rat)"
    by simp
  then have "(of_int m :: rat) \<le> x + 1 / 2"
    using nd(2) by (simp add: x_def field_simps)
  also have "\<dots> \<le> x + x / 2 ^ 53"
    using nd(3) by (simp add: x_def)
  finally have "(of_int m :: rat) \<le> x * (1 + 1 / 2 ^ 53)"
    by (simp add: algebra_simps)
  then have "of_int m * 2 powi e \<le> x * (1 + 1 / 2 ^ 53) * 2 powi e"
    using powi_two_pos [of e] by (simp only: mult_le_cancel_right_pos)
  also have "x * (1 + 1 / 2 ^ 53) * 2 powi e
      = of_int p / of_int q * (2 powi (- e) * 2 powi e) * (1 + 1 / 2 ^ 53)"
    using nd(5) by (simp add: x_def e)
  finally show "valf (m, e) \<le> of_int p / of_int q * (1 + 1 / 2 ^ 53)"
    by (simp add: valf_def powi_two_cancel)
qed

lemma round_frac_int_exact:
  assumes "0 < s" and "s < 2 ^ 53" and "round_frac s 1 = (m, e)"
  shows "valf (m, e) = of_int s" and "e \<le> 0" and "0 < m"
proof -
  obtain n d e' where nd: "round_frac s 1 = (round_half_even n d, e')" "0 < d"
      "2 ^ 52 \<le> (of_int n / of_int d :: rat)" "(of_int n / of_int d :: rat) < 2 ^ 53"
      "(of_int n / of_int d :: rat) = of_int s / of_int 1 * 2 powi (- e')"
    using round_frac_normal [OF assms(1), of 1] by (metis zero_less_one)
  have m: "m = round_half_even n d" and e: "e = e'"
    using nd(1) assms(3) by simp_all
  have x: "(of_int n / of_int d :: rat) = of_int s * 2 powi (- e)"
    using nd(5) by (simp add: e)
  have spos: "(0 :: rat) < of_int s" and slt: "(of_int s :: rat) < 2 ^ 53"
    using assms(1) apply simp
    using assms(2) by (metis of_int_less_iff of_int_numeral of_int_power)
  have "2 ^ 52 \<le> (of_int s :: rat) * 2 powi (- e)"
    using nd(3) x by simp
  also have "\<dots> < 2 ^ 53 * 2 powi (- e)"
    using slt powi_two_pos [of "- e"] by (simp only: mult_less_cancel_right_pos)
  finally have "(2 :: rat) powi (- 1) < 2 powi (- e)"
    by simp
  from powi_two_exponent_ge [OF this] show e0: "e \<le> 0"
    by simp
  define a where "a = s * 2 ^ nat (- e)"
  have a: "(of_int a :: rat) = of_int n / of_int d"
    using e0 by (simp add: a_def x power_int_def)
  have "a \<le> m"
    using round_half_even_ge [OF nd(2), of a n] a by (simp add: m)
  moreover have "m \<le> a"
    using round_half_even_le [OF nd(2), of n a] a by (simp add: m)
  ultimately have ma: "m = a" by simp
  show "0 < m"
    using assms(1) by (simp add: ma a_def)
  have "valf (m, e) = of_int s * (2 powi (- e) * 2 powi e)"
    using e0 by (simp add: valf_def ma a_def power_int_def)
  then show "valf (m, e) = of_int s"
    by (simp add: powi_two_cancel)
qed

text \<open>Three values by evaluation: the constant \<open>1e9\<close>, zero, and their quotient.\<close>

lemmas round_eval = f64_of_int_def f64_of_frac_def round_frac_def round_half_even_def
  compute_bitlen Let_def

lemma f64_of_int_zero: "f64_of_int 0 = (0, 0)"
  by (simp add: round_eval)

lemma f64_of_int_billion: "f64_of_int 1000000000 = (8388608000000000, - 23)"
  by (simp add: round_eval)

lemma f64_div_zero: "f64_div (0, 0) (8388608000000000, - 23) = (0, 23)"
  by (simp add: f64_div_def round_eval)

text \<open>
  The sum of a whole number \<open>sec\<close> and a fraction \<open>y\<close>, converted back to an integer,
  is \<open>sec\<close> again when \<open>y\<close> is zero, and also when \<open>sec\<close> is below \<open>2\<^sup>2\<^sup>4\<close> and \<open>y\<close> is
  below \<open>1 - 2\<^sup>-\<^sup>3\<^sup>0\<close>: the float64 numbers next to \<open>sec + 1\<close> are then at most \<open>2\<^sup>-\<^sup>2\<^sup>9\<close>
  apart, and the sum is nearer to the one below \<open>sec + 1\<close>.
\<close>

lemma powi_two_shift:
  assumes "e \<le> e1"
  shows "(of_int (m * 2 ^ nat (e1 - e)) :: rat) * 2 powi e = of_int m * 2 powi e1"
proof -
  have "(2 :: rat) powi e1 = 2 powi ((e1 - e) + e)"
    by simp
  also have "\<dots> = 2 powi (e1 - e) * 2 powi e"
    by (rule power_int_add) simp
  also have "(2 :: rat) powi (e1 - e) = 2 ^ nat (e1 - e)"
    using assms by (simp add: power_int_def)
  finally show ?thesis
    by simp
qed

lemma f64_add_sum:
  "of_int (m1 * 2 ^ nat (e1 - min e1 e2) + m2 * 2 ^ nat (e2 - min e1 e2)) * 2 powi (min e1 e2)
     = valf (m1, e1) + valf (m2, e2)"
proof -
  have "of_int (m1 * 2 ^ nat (e1 - min e1 e2) + m2 * 2 ^ nat (e2 - min e1 e2))
          * (2 :: rat) powi (min e1 e2)
        = of_int (m1 * 2 ^ nat (e1 - min e1 e2)) * 2 powi (min e1 e2)
          + of_int (m2 * 2 ^ nat (e2 - min e1 e2)) * 2 powi (min e1 e2)"
    by (simp only: of_int_add distrib_right)
  also have "\<dots> = of_int m1 * 2 powi e1 + of_int m2 * 2 powi e2"
    by (simp only: powi_two_shift [of "min e1 e2" e1] powi_two_shift [of "min e1 e2" e2]
        min.cobounded1 min.cobounded2)
  finally show ?thesis
    by (simp add: valf_def)
qed

lemma f64_add_truncates:
  assumes x: "valf x = of_int sec" and sec: "1 \<le> sec" and ex: "snd x \<le> 0"
    and y0: "0 \<le> valf y"
    and room: "valf y = 0 \<and> sec < 2 ^ 53 \<or> valf y < 1 - 1 / 2 ^ 30 \<and> sec < 2 ^ 24"
  shows "go_int (f64_add x y) = sec"
proof -
  obtain m1 e1 m2 e2 where xy: "x = (m1, e1)" "y = (m2, e2)"
    by (cases x, cases y) auto
  define e where "e = min e1 e2"
  define S where "S = m1 * 2 ^ nat (e1 - e) + m2 * 2 ^ nat (e2 - e)"
  define v where "v = valf y"
  have Sv: "(of_int S :: rat) * 2 powi e = of_int sec + v"
    using f64_add_sum [of m1 e1 e2 m2] x by (simp add: S_def e_def v_def xy)
  have v1: "v < 1" and v0: "0 \<le> v"
    using room y0 by (auto simp: v_def)
  have "0 < (of_int S :: rat) * 2 powi e"
    using Sv v0 sec by simp
  then have Spos: "0 < S"
    using powi_two_pos [of e] by (simp add: zero_less_mult_iff)
  obtain M E where ME: "round_frac S 1 = (M, E)"
    by (cases "round_frac S 1")
  have add: "f64_add x y = (M, E + e)"
    using Spos ME by (simp add: f64_add_def xy Let_def f64_of_frac_def flip: e_def S_def)
  obtain n d E' where nd: "round_frac S 1 = (round_half_even n d, E')" "0 < d"
      "2 ^ 52 \<le> (of_int n / of_int d :: rat)" "(of_int n / of_int d :: rat) < 2 ^ 53"
      "(of_int n / of_int d :: rat) = of_int S / of_int 1 * 2 powi (- E')"
    using round_frac_normal [OF Spos, of 1] by (metis zero_less_one)
  have M: "M = round_half_even n d" and E: "E' = E"
    using nd(1) ME by simp_all
  define j where "j = - e - E"
  have "(of_int S :: rat) * 2 powi (- E) = (of_int S * 2 powi e) * 2 powi (- e - E)"
  proof -
    have "(2 :: rat) powi (- E) = 2 powi (e + (- e - E))" by simp
    also have "\<dots> = 2 powi e * 2 powi (- e - E)"
      by (rule power_int_add) simp
    finally show ?thesis by simp
  qed
  then have xj: "(of_int n / of_int d :: rat) = (of_int sec + v) * 2 powi j"
    using nd(5) Sv by (simp add: E j_def)
  have lo: "2 ^ 52 \<le> (of_int sec + v) * 2 powi j"
    using nd(3) xj by simp
  have j: "0 \<le> j \<and> (valf y = 0 \<or> 29 \<le> j)"
  proof -
    from room show ?thesis
    proof
      assume A: "valf y = 0 \<and> sec < 2 ^ 53"
      then have "(of_int sec :: rat) < 2 ^ 53"
        by (metis of_int_less_iff of_int_numeral of_int_power)
      then have "(of_int sec :: rat) + v < 2 ^ 53"
        using A by (simp add: v_def)
      then have "(of_int sec + v) * 2 powi j < 2 ^ 53 * 2 powi j"
        using powi_two_pos [of j] by (simp only: mult_less_cancel_right_pos)
      with lo have "(2 :: rat) ^ 52 < 2 ^ 53 * 2 powi j"
        by (rule le_less_trans)
      then have "(2 :: rat) powi (- 1) < 2 powi j"
        by simp
      from powi_two_exponent_ge [OF this] A show ?thesis by simp
    next
      assume B: "valf y < 1 - 1 / 2 ^ 30 \<and> sec < 2 ^ 24"
      then have "sec + 1 \<le> 2 ^ 24" by simp
      then have "(of_int (sec + 1) :: rat) \<le> of_int (2 ^ 24)"
        by (simp only: of_int_le_iff)
      then have "(of_int sec :: rat) + v < 2 ^ 24"
        using v1 by simp
      then have "(of_int sec + v) * 2 powi j < 2 ^ 24 * 2 powi j"
        using powi_two_pos [of j] by (simp only: mult_less_cancel_right_pos)
      with lo have "(2 :: rat) ^ 52 < 2 ^ 24 * 2 powi j"
        by (rule le_less_trans)
      then have "(2 :: rat) powi 28 < 2 powi j"
        by simp
      from powi_two_exponent_ge [OF this] show ?thesis by simp
    qed
  qed
  then have jpow: "(2 :: rat) powi j = 2 ^ nat j"
    by (simp add: power_int_def)
  define a where "a = sec * 2 ^ nat j"
  define b where "b = (sec + 1) * 2 ^ nat j"
  have "(of_int a :: rat) \<le> of_int n / of_int d"
    using v0 by (simp add: a_def xj jpow algebra_simps)
  from round_half_even_ge [OF nd(2) this] have aM: "a \<le> M"
    by (simp add: M)
  have gap: "1 / 2 < (1 - v) * 2 ^ nat j"
  proof (cases "valf y = 0")
    case True
    have "(1 :: rat) \<le> 2 ^ nat j" by simp
    then have "1 / 2 < (2 :: rat) ^ nat j" by linarith
    moreover have "v = 0" using True by (simp add: v_def)
    ultimately show ?thesis by simp
  next
    case False
    with j room have j29: "29 \<le> j" and vB: "v < 1 - 1 / 2 ^ 30"
      by (auto simp: v_def)
    have "(2 :: rat) ^ 29 \<le> 2 ^ nat j"
      using j29 by (intro power_increasing) simp_all
    moreover have "1 / 2 ^ 30 < 1 - v" using vB by simp
    ultimately have "1 / 2 ^ 30 * 2 ^ 29 < (1 - v) * (2 :: rat) ^ nat j"
      by (intro mult_less_le_imp_less) simp_all
    then show ?thesis by simp
  qed
  have "(of_int n / of_int d :: rat) = of_int b - (1 - v) * 2 ^ nat j"
    by (simp add: b_def xj jpow algebra_simps)
  then have "(of_int n / of_int d :: rat) < of_int b - 1 / 2"
    using gap by simp
  from round_half_even_below_half [OF nd(2) this] have Mb: "M \<le> b - 1"
    by (simp add: M)
  have "0 < a"
    unfolding a_def using sec by (intro mult_pos_pos) simp_all
  with aM have Mpos: "0 < M" by simp
  have "M div 2 ^ nat j = sec"
  proof -
    have "sec \<le> M div 2 ^ nat j"
      using aM by (intro int_div_ge) (simp_all add: a_def mult.commute)
    moreover have "M div 2 ^ nat j < sec + 1"
      using Mb by (intro int_div_less) (simp_all add: b_def mult.commute)
    ultimately show ?thesis by simp
  qed
  moreover have "E + e = - j"
    by (simp add: j_def)
  ultimately show ?thesis
  proof (cases "j = 0")
    case True
    with \<open>M div 2 ^ nat j = sec\<close> \<open>E + e = - j\<close> show ?thesis
      by (simp add: add go_int_def)
  next
    case False
    with j have "0 < j" by simp
    with \<open>M div 2 ^ nat j = sec\<close> \<open>E + e = - j\<close> Mpos show ?thesis
      by (simp add: add go_int_def)
  qed
qed

text \<open>The quotient of the nanoseconds by \<open>1e9\<close> stays below \<open>1 - 2\<^sup>-\<^sup>3\<^sup>0\<close>.\<close>

lemma f64_of_int_exact:
  assumes "0 < s" and "s < 2 ^ 53"
  shows "valf (f64_of_int s) = of_int s" and "snd (f64_of_int s) \<le> 0" and "0 < fst (f64_of_int s)"
proof -
  obtain m e where me: "round_frac s 1 = (m, e)"
    by (cases "round_frac s 1")
  then have f: "f64_of_int s = (m, e)"
    using assms(1) by (simp add: f64_of_int_def f64_of_frac_def)
  show "valf (f64_of_int s) = of_int s" "snd (f64_of_int s) \<le> 0" "0 < fst (f64_of_int s)"
    using round_frac_int_exact [OF assms me] by (simp_all add: f)
qed

lemma valf_billion: "valf (f64_of_int 1000000000) = 1000000000"
  using f64_of_int_exact(1) [of 1000000000] by simp

lemma f64_div_billion:
  assumes "0 \<le> nsec" and "nsec < 1000000000"
  shows "0 \<le> valf (f64_div (f64_of_int nsec) (f64_of_int 1000000000))"
    and "nsec = 0 \<Longrightarrow> valf (f64_div (f64_of_int nsec) (f64_of_int 1000000000)) = 0"
    and "valf (f64_div (f64_of_int nsec) (f64_of_int 1000000000)) < 1 - 1 / 2 ^ 30"
proof -
  let ?y = "f64_div (f64_of_int nsec) (f64_of_int 1000000000)"
  have zero: "valf ?y = 0" if "nsec = 0"
    using that by (simp add: f64_of_int_zero f64_of_int_billion f64_div_zero valf_def)
  have pos: "0 \<le> valf ?y \<and> valf ?y < 1 - 1 / 2 ^ 30" if "0 < nsec"
  proof -
    obtain mn en where n: "f64_of_int nsec = (mn, en)"
      by (cases "f64_of_int nsec")
    have lt53: "nsec < 2 ^ 53" using assms(2) by simp
    have vn: "valf (mn, en) = of_int nsec" and mn: "0 < mn"
      using f64_of_int_exact [OF that lt53] by (simp_all add: n)
    obtain m e where me: "round_frac mn 8388608000000000 = (m, e)"
      by (cases "round_frac mn 8388608000000000")
    have y: "?y = (m, e + en + 23)"
      using mn me by (simp add: n f64_of_int_billion f64_div_def f64_of_frac_def)
    have b: "2 ^ 52 \<le> m" "valf (m, e) \<le> of_int mn / of_int 8388608000000000 * (1 + 1 / 2 ^ 53)"
      using round_frac_bounds [OF mn _ me] by simp_all
    have split: "(2 :: rat) powi (e + en + 23) = 2 powi e * 2 powi en * 2 ^ 23"
      by (simp add: power_int_add)
    have "valf ?y = valf (m, e) * (2 powi en * 2 ^ 23)"
      by (simp add: y valf_def split)
    also have "\<dots> \<le> of_int mn / of_int 8388608000000000 * (1 + 1 / 2 ^ 53) * (2 powi en * 2 ^ 23)"
      using b(2) powi_two_pos [of en] by (intro mult_right_mono) simp_all
    also have "\<dots> = valf (mn, en) / 1000000000 * (1 + 1 / 2 ^ 53)"
      by (simp add: valf_def)
    also have "\<dots> = of_int nsec / 1000000000 * (1 + 1 / 2 ^ 53)"
      by (simp add: vn)
    also have "\<dots> \<le> 999999999 / 1000000000 * (1 + 1 / 2 ^ 53)"
    proof -
      have "nsec \<le> 999999999" using assms(2) by simp
      then have "(of_int nsec :: rat) \<le> of_int 999999999"
        by (simp only: of_int_le_iff)
      then show ?thesis by simp
    qed
    also have "\<dots> < 1 - 1 / 2 ^ 30"
      by simp
    finally have "valf ?y < 1 - 1 / 2 ^ 30" .
    moreover have "0 \<le> valf ?y"
      using b(1) powi_two_pos [of "e + en + 23"] by (simp add: y valf_def)
    ultimately show ?thesis by simp
  qed
  show "0 \<le> valf ?y"
    using zero pos assms(1) by (cases "nsec = 0") auto
  show "nsec = 0 \<Longrightarrow> valf ?y = 0"
    by (fact zero)
  show "valf ?y < 1 - 1 / 2 ^ 30"
    using zero pos assms(1) by (cases "nsec = 0") auto
qed

lemma Seconds_truncates:
  assumes "Second \<le> d"
    and "d < 2 ^ 24 * Second \<or> d mod Second = 0 \<and> d < 2 ^ 53 * Second"
  shows "go_int (Seconds d) = d div Second"
proof -
  define sec where "sec = d div Second"
  define nsec where "nsec = d mod Second"
  have dpos: "0 < d" using assms(1) by (simp add: Second_def)
  have q: "quo d Second = sec"
    using dpos by (simp add: quo_def sec_def Second_def)
  have r: "rem d Second = nsec"
    by (simp add: rem_def q nsec_def sec_def minus_mult_div_eq_mod mult.commute)
  have sec1: "1 \<le> sec"
    using assms(1) by (simp add: sec_def Second_def int_div_ge)
  have ns: "0 \<le> nsec" "nsec < 1000000000"
    by (simp_all add: nsec_def Second_def)
  have sec53: "sec < 2 ^ 53"
    using assms(2) by (auto simp: sec_def Second_def intro!: int_div_less)
  let ?x = "f64_of_int sec"
  let ?y = "f64_div (f64_of_int nsec) (f64_of_int 1000000000)"
  have S: "Seconds d = f64_add ?x ?y"
    by (simp add: Seconds_def q r)
  have x: "valf ?x = of_int sec" "snd ?x \<le> 0"
    using f64_of_int_exact [of sec] sec1 sec53 by simp_all
  have room: "valf ?y = 0 \<and> sec < 2 ^ 53 \<or> valf ?y < 1 - 1 / 2 ^ 30 \<and> sec < 2 ^ 24"
  proof (cases "d < 2 ^ 24 * Second")
    case True
    then have "sec < 2 ^ 24"
      by (auto simp: sec_def Second_def intro!: int_div_less)
    then show ?thesis
      using f64_div_billion(3) [OF ns] by simp
  next
    case False
    with assms(2) have "nsec = 0" by (simp add: nsec_def)
    then show ?thesis
      using f64_div_billion(2) [OF ns] sec53 by simp
  qed
  show ?thesis
    unfolding S sec_def [symmetric]
    by (rule f64_add_truncates [OF x(1) sec1 x(2) f64_div_billion(1) [OF ns] room])
qed

subsection \<open>Writing\<close>

text \<open>
  Two minutes and five seconds are whole seconds. One nanosecond less than 16777217
  seconds is neither whole nor below \<open>2\<^sup>2\<^sup>4\<close> seconds: the sum of 16777216 and the
  float64 nearest to 0.999999999 lies between two float64 numbers that are \<open>2\<^sup>-\<^sup>2\<^sup>8\<close>
  apart, and the nearer one is 16777217.
\<close>

lemma ttl_two_minutes: "go_int (Seconds (2 * Minute)) = 120"
  using Seconds_truncates [of "2 * Minute"] by (simp add: Minute_def Second_def)

lemma ttl_five_seconds: "go_int (Seconds 5000000000) = 5"
  using Seconds_truncates [of 5000000000] by (simp add: Second_def)

lemma ttl_194_days: "go_int (Seconds 16777216999999999) = 16777217"
proof -
  have s: "Seconds 16777216999999999 =
      f64_add (f64_of_int 16777216) (f64_div (f64_of_int 999999999) (f64_of_int 1000000000))"
    by (simp add: Seconds_def quo_def rem_def Second_def)
  have a: "f64_of_int 16777216 = (4503599627370496, - 28)"
    by (simp add: round_eval)
  have n: "f64_of_int 999999999 = (8388607991611392, - 23)"
    by (simp add: round_eval)
  have d: "f64_div (8388607991611392, - 23) (8388608000000000, - 23) = (9007199245733793, - 53)"
    by (simp add: f64_div_def round_eval)
  have r: "f64_of_frac 151115736459027892572065 1 = (4503599895805952, 25)"
    by (simp add: round_eval)
  have "f64_add (4503599627370496, - 28) (9007199245733793, - 53) = (4503599895805952, - 28)"
    by (simp add: f64_add_def Let_def) (simp add: r)
  then show ?thesis
    by (simp add: s a n d f64_of_int_billion go_int_def)
qed

text \<open>
  With the field set and an object that marshals, \<open>Set\<close> sends one SETEX on that
  connection and closes it. Below one second the TTL is 120. From one second on, the TTL
  is the expiration truncated to whole seconds whenever the expiration is below \<open>2\<^sup>2\<^sup>4\<close>
  seconds (about 194 days) or is a whole number of seconds. The specification's two
  examples, 500ms and 5s, give 120 and 5.
\<close>

lemma Set_sends:
  assumes "conn c = Some k" and "Marshal c (Object item) = (b, None)"
  shows "snd (snd (Set env c item tr)) =
           tr @ [CallMarshal,
                 Do k (SETEX (Key item)
                   (go_int (Seconds (if sint (Expiration item) < Second then 2 * Minute
                                     else sint (Expiration item)))) b),
                 Close k]"
  using assms by (simp add: Set_def getConn_Some Let_def split: option.splits)

lemma Set_ttl_floor:
  assumes "conn c = Some k" and "Marshal c (Object item) = (b, None)"
    and "sint (Expiration item) < Second"
  shows "snd (snd (Set env c item tr)) =
           tr @ [CallMarshal, Do k (SETEX (Key item) 120 b), Close k]"
  using assms by (simp add: Set_sends ttl_two_minutes)

lemma Set_ttl_truncated:
  assumes "conn c = Some k" and "Marshal c (Object item) = (b, None)"
    and "Second \<le> sint (Expiration item)"
    and "sint (Expiration item) < 2 ^ 24 * Second \<or> sint (Expiration item) mod Second = 0"
  shows "snd (snd (Set env c item tr)) =
           tr @ [CallMarshal,
                 Do k (SETEX (Key item) (sint (Expiration item) div Second) b),
                 Close k]"
proof -
  have "sint (Expiration item) < 2 ^ 63"
    using sint_lt [of "Expiration item"] by simp
  then have "sint (Expiration item) < 2 ^ 53 * Second"
    by (simp add: Second_def)
  with assms(3,4) have "go_int (Seconds (sint (Expiration item))) = sint (Expiration item) div Second"
    by (intro Seconds_truncates) auto
  then show ?thesis
    using assms(1,2,3) by (simp add: Set_sends)
qed

lemma Set_half_second:
  "snd (snd (Set empty_store (bytes_cache\<lparr>conn := Some 3\<rparr>)
       \<lparr>Key = ''k'', Object = [1], Expiration = 500000000\<rparr> []))
     = [CallMarshal, Do 3 (SETEX ''k'' 120 [1]), Close 3]"
  using Set_ttl_floor [of "bytes_cache\<lparr>conn := Some 3\<rparr>" 3
      "\<lparr>Key = ''k'', Object = [1], Expiration = 500000000\<rparr>" "[1]" empty_store "[]"]
  by (simp add: bytes_cache_def NewRedisCache_def Second_def)

lemma Set_five_seconds:
  "snd (snd (Set empty_store (bytes_cache\<lparr>conn := Some 3\<rparr>)
       \<lparr>Key = ''k'', Object = [1], Expiration = 5000000000\<rparr> []))
     = [CallMarshal, Do 3 (SETEX ''k'' 5 [1]), Close 3]"
  using Set_sends [of "bytes_cache\<lparr>conn := Some 3\<rparr>" 3
      "\<lparr>Key = ''k'', Object = [1], Expiration = 5000000000\<rparr>" "[1]" empty_store "[]"]
  by (simp add: bytes_cache_def NewRedisCache_def Second_def ttl_five_seconds)

text \<open>
  Claim C1. The TTL that \<open>Set\<close> sends is \<open>int(expire.Seconds())\<close>, and \<open>Seconds\<close> is a
  float64. For an expiration of 16777216999999999ns, on a cache whose field is set, the
  truncation to whole seconds is 16777216, and \<open>Set\<close> sends 16777217.
\<close>

theorem Set_ttl_rounded_up:
  "Set empty_store (bytes_cache\<lparr>conn := Some 3\<rparr>)
       \<lparr>Key = ''k'', Object = [1], Expiration = 16777216999999999\<rparr> []
     = (Return None, bytes_cache\<lparr>conn := Some 3\<rparr>,
        [CallMarshal, Do 3 (SETEX ''k'' 16777217 [1]), Close 3])
   \<and> quo 16777216999999999 Second = 16777216"
proof -
  have "sint (16777216999999999 :: 64 word) = 16777216999999999"
    by simp
  then show ?thesis
    by (simp add: Set_def getConn_def empty_store_def bytes_cache_def NewRedisCache_def
        ttl_194_days)
      (simp add: quo_def Second_def)
qed

text \<open>
  Claim C9, as the code has it. When the marshal function rejects the object, \<open>Set\<close>
  returns that error wrapped as "marshal failed". The marshal function is called once,
  no connection is acquired, no command is sent, and the cache is unchanged.
\<close>

theorem Set_marshal_failure:
  assumes "Marshal c (Object item) = (b, Some err)"
  shows "Set env c item tr = (Return (Some (Wrap err ''marshal failed'')), c, tr @ [CallMarshal])"
  using assms by (simp add: Set_def)

theorem Set_marshal_failure_witness:
  "Marshal bytes_cache (Object \<lparr>Key = ''k'', Object = [], Expiration = 5000000000\<rparr>)
     = ([], Some (Fault ''nothing to encode''))
   \<and> Set empty_store bytes_cache \<lparr>Key = ''k'', Object = [], Expiration = 5000000000\<rparr> []
     = (Return (Some (Wrap (Fault ''nothing to encode'') ''marshal failed'')), bytes_cache,
        [CallMarshal])"
  using Set_marshal_failure [of bytes_cache "\<lparr>Key = ''k'', Object = [], Expiration = 5000000000\<rparr>"
      "[]" "Fault ''nothing to encode''" empty_store "[]"]
  by (simp add: bytes_cache_def NewRedisCache_def)

text \<open>
  Claim C9 as stated fails: the error \<open>Set\<close> returns is not the marshal function's own
  error value.
\<close>

theorem Set_marshal_error_unmodified_counterexample:
  "Marshal bytes_cache (Object \<lparr>Key = ''k'', Object = [], Expiration = 5000000000\<rparr>)
     = ([], Some (Fault ''nothing to encode''))
   \<and> fst (Set empty_store bytes_cache \<lparr>Key = ''k'', Object = [], Expiration = 5000000000\<rparr> [])
     \<noteq> Return (Some (Fault ''nothing to encode''))"
  by (simp add: Set_def bytes_cache_def NewRedisCache_def)

subsection \<open>Acquiring and releasing\<close>

text \<open>
  Claim C5. On a cache as \<open>NewRedisCache\<close> builds it, with a pool whose connection is
  healthy, \<open>Set\<close> and \<open>Get\<close> acquire connection 7 and then panic on the nil field: no
  command is sent on the acquired connection and it is never closed.
\<close>

theorem fresh_cache_leaks_connection_and_panics:
  "Set empty_store bytes_cache \<lparr>Key = ''k'', Object = [1], Expiration = 5000000000\<rparr> []
     = (Panic, bytes_cache, [CallMarshal, Acquire 7])
   \<and> Get empty_store bytes_cache ''k'' [] [] = (Panic, bytes_cache, [], [Acquire 7])"
  by (simp add: Set_def Get_def getConn_def empty_store_def bytes_cache_def NewRedisCache_def)

subsection \<open>The counters\<close>

text \<open>A call changes a counter by nothing or by one.\<close>

lemma Get_counters:
  "(hits (fst (snd (Get env c key object tr))) = hits c
      \<or> hits (fst (snd (Get env c key object tr))) = hits c + 1)
   \<and> (misses (fst (snd (Get env c key object tr))) = misses c
      \<or> misses (fst (snd (Get env c key object tr))) = misses c + 1)"
  using Get_cases [of env c key object tr] by (cases "Get env c key object tr") auto

lemma step_counters:
  "(hits (fst (step env s call)) = hits (fst s) \<or> hits (fst (step env s call)) = hits (fst s) + 1)
   \<and> (misses (fst (step env s call)) = misses (fst s)
      \<or> misses (fst (step env s call)) = misses (fst s) + 1)"
proof (cases s)
  case (Pair c tr)
  show ?thesis
  proof (cases call)
    case (CallSet item)
    then show ?thesis
      using Set_cache [of env c item tr] Pair by (auto split: prod.splits)
  next
    case (CallGet key object)
    then show ?thesis
      using Get_counters [of env c key object tr] Pair by (auto split: prod.splits)
  next
    case CallStats
    then show ?thesis using Pair by simp
  qed
qed

lemma bump_unat:
  fixes x y :: "64 word"
  assumes "y = x \<or> y = x + 1" and "unat x + 1 < 2 ^ 64"
  shows "unat x \<le> unat y \<and> unat y \<le> unat x + 1"
proof -
  have "unat (x + 1) = unat x + 1"
    using assms(2) by (simp add: unat_word_ariths)
  then show ?thesis
    using assms(1) by auto
qed

lemma run_counters:
  "unat (hits (fst s)) + length calls < 2 ^ 64 \<Longrightarrow>
     unat (hits (fst s)) \<le> unat (hits (fst (run env s calls)))
     \<and> unat (hits (fst (run env s calls))) \<le> unat (hits (fst s)) + length calls"
  "unat (misses (fst s)) + length calls < 2 ^ 64 \<Longrightarrow>
     unat (misses (fst s)) \<le> unat (misses (fst (run env s calls)))
     \<and> unat (misses (fst (run env s calls))) \<le> unat (misses (fst s)) + length calls"
proof (induction calls arbitrary: s)
  case Nil
  {
    case 1
    then show ?case by (simp add: run_def)
  next
    case 2
    then show ?case by (simp add: run_def)
  }
next
  case (Cons call calls)
  {
    case 1
    have b: "unat (hits (fst s)) \<le> unat (hits (fst (step env s call)))
        \<and> unat (hits (fst (step env s call))) \<le> unat (hits (fst s)) + 1"
      using step_counters [of env s call] 1 by (intro bump_unat) auto
    then have "unat (hits (fst (step env s call))) + length calls < 2 ^ 64"
      using 1 by simp
    from Cons.IH(1) [OF this] b show ?case
      by (simp add: run_def)
  next
    case 2
    have b: "unat (misses (fst s)) \<le> unat (misses (fst (step env s call)))
        \<and> unat (misses (fst (step env s call))) \<le> unat (misses (fst s)) + 1"
      using step_counters [of env s call] 2 by (intro bump_unat) auto
    then have "unat (misses (fst (step env s call))) + length calls < 2 ^ 64"
      using 2 by simp
    from Cons.IH(2) [OF this] b show ?case
      by (simp add: run_def)
  }
qed

lemma run_append: "run env s (xs @ ys) = run env (run env s xs) ys"
  by (simp add: run_def)

lemma run_take:
  assumes "i \<le> j"
  shows "run env s (take j calls) = run env (run env s (take i calls)) (drop i (take j calls))"
proof -
  have "take j calls = take i calls @ drop i (take j calls)"
    using assms by (metis append_take_drop_id min.absorb1 take_take)
  then show ?thesis
    by (metis run_append)
qed

text \<open>
  Claim C7, as the code has it. No \<open>Set\<close> changes a counter. In a sequence of calls
  that is too short to take a counter past \<open>2\<^sup>6\<^sup>4 - 1\<close>, neither counter decreases
  between any two points of the sequence.
\<close>

theorem counters_frozen_by_Set_and_monotone_below_wrap:
  "hits (fst (snd (Set env c item tr))) = hits c
   \<and> misses (fst (snd (Set env c item tr))) = misses c
   \<and> (unat (hits c) + length calls < 2 ^ 64 \<and> unat (misses c) + length calls < 2 ^ 64
        \<and> i \<le> j \<and> j \<le> length calls \<longrightarrow>
      hits (fst (run env (c, tr) (take i calls))) \<le> hits (fst (run env (c, tr) (take j calls)))
      \<and> misses (fst (run env (c, tr) (take i calls)))
          \<le> misses (fst (run env (c, tr) (take j calls))))"
proof -
  {
    fix f :: "'a Cache \<Rightarrow> 64 word"
    assume ind: "\<And>s calls. unat (f (fst s)) + length calls < 2 ^ 64 \<Longrightarrow>
       unat (f (fst s)) \<le> unat (f (fst (run env s calls)))
       \<and> unat (f (fst (run env s calls))) \<le> unat (f (fst s)) + length calls"
    assume bound: "unat (f c) + length calls < 2 ^ 64" and ij: "i \<le> j" "j \<le> length calls"
    let ?si = "run env (c, tr) (take i calls)"
    have "unat (f (fst ?si)) \<le> unat (f c) + i"
      using ind [of "(c, tr)" "take i calls"] bound ij by simp
    then have "unat (f (fst ?si)) + length (drop i (take j calls)) < 2 ^ 64"
      using bound ij by simp
    from ind [OF this] have "unat (f (fst ?si)) \<le> unat (f (fst (run env (c, tr) (take j calls))))"
      using run_take [OF ij(1), of env "(c, tr)" calls] by simp
    then have "f (fst ?si) \<le> f (fst (run env (c, tr) (take j calls)))"
      by (simp add: word_le_nat_alt)
  }
  note mono = this
  show ?thesis
    using mono [of hits, OF run_counters(1)] mono [of misses, OF run_counters(2)]
    by (simp add: Set_cache)
qed

theorem counters_frozen_by_Set_and_monotone_below_wrap_witness:
  "unat (hits (bytes_cache\<lparr>conn := Some 3\<rparr>)) + length
       [CallGet ''k'' [], CallSet \<lparr>Key = ''k'', Object = [1], Expiration = 5000000000\<rparr>,
        CallStats, CallGet ''k'' [5]] < 2 ^ 64
   \<and> unat (misses (bytes_cache\<lparr>conn := Some 3\<rparr>)) + length
       [CallGet ''k'' [], CallSet \<lparr>Key = ''k'', Object = [1], Expiration = 5000000000\<rparr>,
        CallStats, CallGet ''k'' [5]] < 2 ^ 64
   \<and> (1 :: nat) \<le> 4
   \<and> 4 \<le> length
       [CallGet ''k'' [], CallSet \<lparr>Key = ''k'', Object = [1], Expiration = 5000000000\<rparr>,
        CallStats, CallGet ''k'' [5]]
   \<and> hits (fst (run (store_holding [9]) (bytes_cache\<lparr>conn := Some 3\<rparr>, [])
        (take 1 [CallGet ''k'' [], CallSet \<lparr>Key = ''k'', Object = [1], Expiration = 5000000000\<rparr>,
                 CallStats, CallGet ''k'' [5]])))
      \<le> hits (fst (run (store_holding [9]) (bytes_cache\<lparr>conn := Some 3\<rparr>, [])
        (take 4 [CallGet ''k'' [], CallSet \<lparr>Key = ''k'', Object = [1], Expiration = 5000000000\<rparr>,
                 CallStats, CallGet ''k'' [5]])))"
  using counters_frozen_by_Set_and_monotone_below_wrap
    [of "store_holding [9]" "bytes_cache\<lparr>conn := Some 3\<rparr>" _ "[]"
      "[CallGet ''k'' [], CallSet \<lparr>Key = ''k'', Object = [1], Expiration = 5000000000\<rparr>,
        CallStats, CallGet ''k'' [5]]" 1 4]
  by (simp add: bytes_cache_def NewRedisCache_def)

text \<open>
  Claim C7 as stated fails: the counters are uint64, and a hit counted at
  \<open>2\<^sup>6\<^sup>4 - 1\<close> takes the hit counter back to 0.
\<close>

theorem counter_wraps_counterexample:
  "hits (fst (snd (Get (store_holding [9])
       (bytes_cache\<lparr>conn := Some 3, hits := 18446744073709551615\<rparr>) ''k'' [] [])))
     < hits (bytes_cache\<lparr>conn := Some 3, hits := 18446744073709551615\<rparr>)"
  by (simp add: Get_def getConn_def store_holding_def bytes_cache_def NewRedisCache_def)

end
